theory Spec2Isabelle
  imports Complex_Main "HOL-Library.Log_Nat"
begin

section \<open>Python primitives used by \<open>main_picking_primers.py\<close>\<close>

text \<open>
  A nucleotide symbol is a \<open>char\<close> and a DNA sequence a \<open>string\<close>. The exceptions the
  module can raise are values of \<open>error\<close>; a computation that may raise returns
  \<open>error + 'a\<close>, with \<open>Inl\<close> for the exception.
\<close>

datatype error =
    ZeroDivisionError
  | OverflowError
  | IndexError
  | KeyError char
  | AttributeError string

text \<open>
  Python floats are IEEE 754 binary64 numbers. A finite float is represented by the rational
  number that it denotes (\<open>0.0\<close> and \<open>-0.0\<close> both by 0; they compare equal in Python).

  \<open>floor_log2 q\<close> is the binary exponent of a positive rational \<open>q\<close>: the integer \<open>e\<close> with
  \<open>2 powi e \<le> q < 2 powi (e + 1)\<close>. It is computed from the bit length of an integer
  (\<open>bitlen\<close>, Python's \<open>int.bit_length\<close>).
\<close>

definition floor_log2 :: "rat \<Rightarrow> int" where
  "floor_log2 q = (if 1 \<le> q then bitlen \<lfloor>q\<rfloor> - 1 else - bitlen (\<lceil>1 / q\<rceil> - 1))"

text \<open>Rounding to the nearest integer, a tie going to the even neighbour.\<close>

definition round_half_even :: "rat \<Rightarrow> int" where
  "round_half_even x =
     (let f = \<lfloor>x\<rfloor>; r = x - of_int f in
      if r < 1 / 2 then f else if 1 / 2 < r then f + 1 else if even f then f else f + 1)"

text \<open>
  The binary64 number nearest to \<open>q\<close>. A significand has 53 bits, so the floats around a
  number of exponent \<open>e\<close> are \<open>2 powi (e - 52)\<close> apart; below the smallest normal number
  \<open>2 powi (- 1022)\<close> they are \<open>2 powi (- 1074)\<close> apart. The exponent is not bounded above
  here: the caller compares the result with \<open>2 ^ 1024\<close>.
\<close>

definition round_double :: "rat \<Rightarrow> rat" where
  "round_double q =
     (if q = 0 then 0
      else let u = 2 powi (max (floor_log2 \<bar>q\<bar>) (- 1022) - 52)
           in of_int (round_half_even (q / u)) * u)"

text \<open>
  \<open>a / b\<close> on two Python ints: raises ZeroDivisionError on a zero divisor, otherwise
  returns the correctly rounded float of the quotient, or raises OverflowError when that
  is too large for a float.
\<close>

definition true_div :: "int \<Rightarrow> int \<Rightarrow> error + rat" where
  "true_div a b =
     (if b = 0 then Inl ZeroDivisionError
      else let r = round_double (of_int a / of_int b)
           in if 2 ^ 1024 \<le> \<bar>r\<bar> then Inl OverflowError else Inr r)"

text \<open>\<open>xs[-1]\<close>: the last element, IndexError on an empty sequence.\<close>

definition getitem_last :: "'a list \<Rightarrow> error + 'a" where
  "getitem_last xs = (if xs = [] then Inl IndexError else Inr (last xs))"

text \<open>\<open>xs[i]\<close> for an index \<open>i \<ge> 0\<close>.\<close>

definition getitem :: "'a list \<Rightarrow> nat \<Rightarrow> error + 'a" where
  "getitem xs i = (if i < length xs then Inr (xs ! i) else Inl IndexError)"

text \<open>\<open>xs[i:j]\<close> for \<open>0 \<le> i \<le> j\<close>: slicing never raises, it truncates at the end.\<close>

definition slice :: "'a list \<Rightarrow> nat \<Rightarrow> nat \<Rightarrow> 'a list" where
  "slice xs i j = take (j - i) (drop i xs)"

text \<open>\<open>xs[-4:]\<close>: the last four elements, or all of \<open>xs\<close> when it is shorter.\<close>

definition slice_last4 :: "'a list \<Rightarrow> 'a list" where
  "slice_last4 xs = drop (length xs - 4) xs"

text \<open>\<open>xs.insert(i, x)\<close> for \<open>i \<ge> 0\<close>: the elements from position \<open>i\<close> on move up by one.\<close>

definition list_insert :: "nat \<Rightarrow> 'a \<Rightarrow> 'a list \<Rightarrow> 'a list" where
  "list_insert i x xs = take i xs @ x # drop i xs"

text \<open>
  Attribute lookup on a \<open>str\<close> object for the name \<open>comp\<close>. The built-in string type has
  no such attribute, so the lookup raises for every string.
\<close>

definition str_getattr_comp :: "string \<Rightarrow> error + string" where
  "str_getattr_comp s = Inl (AttributeError ''comp'')"

section \<open>The class \<open>Primer\<close>\<close>

text \<open>The attribute \<open>gc\<close> holds a float, \<open>tm\<close> and \<open>len\<close> hold ints.\<close>

record primer =
  seq :: string
  len :: int
  gc :: rat
  tm :: int
  min17 :: bool
  end_nuc :: char
  comp_seq :: string

text \<open>The methods called inside \<open>__init__\<close> take the attributes that they read.\<close>

definition gc_content :: "string \<Rightarrow> int \<Rightarrow> error + rat" where
  "gc_content sq l =
     true_div (100 * int (length (filter (\<lambda>nuc. nuc \<in> set ''GC'') sq))) l"

definition min_large_17 :: "int \<Rightarrow> bool" where
  "min_large_17 l = (l \<ge> 17)"

definition primer_tm :: "string \<Rightarrow> int" where
  "primer_tm sq =
     4 * (int (count_list sq CHR ''C'') + int (count_list sq CHR ''G''))
     + 2 * (int (count_list sq CHR ''A'') + int (count_list sq CHR ''T''))"

definition complement_dict :: "char \<rightharpoonup> char" where
  "complement_dict =
     [CHR ''A'' \<mapsto> CHR ''T'', CHR ''T'' \<mapsto> CHR ''A'',
      CHR ''C'' \<mapsto> CHR ''G'', CHR ''G'' \<mapsto> CHR ''C'']"

text \<open>\<open>complement_dict[c]\<close>: a missing key raises KeyError.\<close>

definition complement_lookup :: "char \<Rightarrow> error + char" where
  "complement_lookup c =
     (case complement_dict c of None \<Rightarrow> Inl (KeyError c) | Some v \<Rightarrow> Inr v)"

text \<open>
  \<open>''.join([complement_dict[i] for i in s])\<close>: the comprehension looks the symbols up from
  left to right and stops at the first one that is missing.
\<close>

fun complement_each :: "string \<Rightarrow> error + string" where
  "complement_each [] = Inr []"
| "complement_each (c # cs) =
     (case complement_lookup c of
        Inl e \<Rightarrow> Inl e
      | Inr v \<Rightarrow> (case complement_each cs of Inl e \<Rightarrow> Inl e | Inr vs \<Rightarrow> Inr (v # vs)))"

definition primer_comp :: "string \<Rightarrow> error + string" where
  "primer_comp sq =
     (case complement_each sq of Inl e \<Rightarrow> Inl e | Inr cs \<Rightarrow> Inr (rev cs))"

text \<open>\<open>Primer(dna_string)\<close>: the attributes are computed in the order of \<open>__init__\<close>.\<close>

definition Primer :: "string \<Rightarrow> error + primer" where
  "Primer dna_string =
     (let l = int (length dna_string) in
      case gc_content dna_string l of
        Inl e \<Rightarrow> Inl e
      | Inr g \<Rightarrow>
          (let t = primer_tm dna_string; m = min_large_17 l in
           case getitem_last dna_string of
             Inl e \<Rightarrow> Inl e
           | Inr b \<Rightarrow>
               (case primer_comp dna_string of
                  Inl e \<Rightarrow> Inl e
                | Inr c \<Rightarrow>
                    Inr \<lparr>seq = dna_string, len = l, gc = g, tm = t, min17 = m,
                         end_nuc = b, comp_seq = c\<rparr>)))"

subsection \<open>\<open>no_hairpin\<close>\<close>

text \<open>
  The second loop of \<open>no_hairpin\<close>: for each index \<open>i\<close> of the range, read
  \<open>list_of_hairpin_trials_2[i]\<close>, complement it and insert the result at position \<open>i\<close>.
  The range is fixed before the loop starts; the list grows while it runs.
\<close>

fun insert_complements :: "nat list \<Rightarrow> string list \<Rightarrow> error + string list" where
  "insert_complements [] l2 = Inr l2"
| "insert_complements (i # is) l2 =
     (case getitem l2 i of
        Inl e \<Rightarrow> Inl e
      | Inr w \<Rightarrow>
          (case complement_each w of
             Inl e \<Rightarrow> Inl e
           | Inr cw \<Rightarrow> insert_complements is (list_insert i cw l2)))"

text \<open>The first loop appends \<open>seq[i:i+4]\<close> to both lists for \<open>i\<close> in \<open>range(len - 3)\<close>.\<close>

definition hairpin_trials :: "primer \<Rightarrow> string list" where
  "hairpin_trials p = map (\<lambda>i. slice (seq p) i (i + 4)) [0..<nat (len p - 3)]"

definition no_hairpin :: "primer \<Rightarrow> error + (string list \<times> string list)" where
  "no_hairpin p =
     (let list_of_hairpin_trials_1 = hairpin_trials p;
          list_of_hairpin_trials_2 = hairpin_trials p in
      case insert_complements [0..<length list_of_hairpin_trials_2] list_of_hairpin_trials_2 of
        Inl e \<Rightarrow> Inl e
      | Inr l2 \<Rightarrow> Inr (list_of_hairpin_trials_1, l2))"

subsection \<open>The static pairwise checks\<close>

text \<open>
  \<open>no_primer_dimer\<close> reads \<open>primer_1.seq[-4:]\<close> and then \<open>primer_2.seq.comp[-4:]\<close>: the
  attribute \<open>comp\<close> is looked up on the string \<open>primer_2.seq\<close>, not on the primer.
\<close>

definition no_primer_dimer :: "primer \<Rightarrow> primer \<Rightarrow> error + bool" where
  "no_primer_dimer primer_1 primer_2 =
     (let last_nuc1 = slice_last4 (seq primer_1) in
      case str_getattr_comp (seq primer_2) of
        Inl e \<Rightarrow> Inl e
      | Inr c \<Rightarrow>
          (let last_nuc2 = slice_last4 c;
               number_of_comp =
                 int (length (filter (\<lambda>(nuc1, nuc2). nuc1 = nuc2) (zip last_nuc1 last_nuc2)))
           in Inr (number_of_comp \<le> 2)))"

definition gc_content_test :: "primer \<Rightarrow> primer \<Rightarrow> bool" where
  "gc_content_test primer_1 primer_2 = (gc primer_1 \<ge> 50 \<and> gc primer_2 \<ge> 50)"

definition anneling_temperature_check :: "primer \<Rightarrow> primer \<Rightarrow> bool" where
  "anneling_temperature_check primer_1 primer_2 = (\<bar>tm primer_1 - tm primer_2\<bar> \<le> 5)"

definition is_end_g_or_c :: "primer \<Rightarrow> primer \<Rightarrow> bool" where
  "is_end_g_or_c primer_1 primer_2 =
     (end_nuc primer_1 \<in> set [CHR ''G'', CHR ''C''] \<and> end_nuc primer_2 \<in> set [CHR ''G'', CHR ''C''])"

section \<open>Properties of the float rounding\<close>

lemma recip_le: "0 < q \<Longrightarrow> 0 < P \<Longrightarrow> 1 / q \<le> P \<Longrightarrow> 1 / P \<le> (q::rat)"
  by (simp add: field_simps)

lemma recip_less: "0 < q \<Longrightarrow> 0 < P \<Longrightarrow> P < 1 / q \<Longrightarrow> q < 1 / (P::rat)"
  by (simp add: field_simps)

lemma powi_neg_nat: "(2::rat) powi (- int k) = 1 / 2 ^ k"
  by (simp add: power_int_minus inverse_eq_divide)

lemma powi_nat: "(2::rat) powi (int k) = 2 ^ k"
  by simp

lemma floor_log2_ge1:
  assumes "1 \<le> q"
  shows "2 powi (floor_log2 q) \<le> q \<and> q < 2 powi (floor_log2 q + 1)"
proof -
  let ?n = "\<lfloor>q\<rfloor>"
  from assms have n: "0 < ?n" by simp
  have "1 \<le> bitlen ?n" using n by (auto simp: bitlen_alt_def)
  then obtain k where k: "bitlen ?n = int (Suc k)"
    by (metis Suc_pred' int_nat_eq zero_less_nat_eq less_le_trans zero_less_one order.trans
        zero_le_one)
  from k have nk: "nat (bitlen ?n) = Suc k" "nat (bitlen ?n - 1) = k"
    by (metis nat_int, simp)
  from bitlen_bounds [OF n] have lo: "2 ^ k \<le> ?n" and hi: "?n < 2 ^ Suc k"
    unfolding nk by blast+
  have "(of_int (2 ^ k) :: rat) \<le> of_int ?n" using lo by (simp only: of_int_le_iff)
  moreover have "of_int ?n \<le> q" by simp
  moreover have "(of_int (2 ^ k) :: rat) = 2 ^ k" by simp
  ultimately have 1: "(2::rat) ^ k \<le> q" by linarith
  from hi have "?n + 1 \<le> 2 ^ Suc k" by simp
  then have "(of_int (?n + 1) :: rat) \<le> of_int (2 ^ Suc k)" by (simp only: of_int_le_iff)
  moreover have "q < of_int (?n + 1)" by linarith
  moreover have "(of_int (2 ^ Suc k) :: rat) = 2 ^ Suc k" by simp
  ultimately have 2: "q < 2 ^ Suc k" by linarith
  have e: "floor_log2 q = int k" using assms k by (simp add: floor_log2_def)
  have e1: "floor_log2 q + 1 = int (Suc k)" using e by simp
  show ?thesis unfolding e1 unfolding e powi_nat using 1 2 by blast
qed

lemma floor_log2_lt1:
  assumes "0 < q" and "q < 1"
  shows "2 powi (floor_log2 q) \<le> q \<and> q < 2 powi (floor_log2 q + 1)"
proof -
  let ?y = "1 / q"
  let ?m = "\<lceil>?y\<rceil>"
  from assms have y: "1 < ?y" by (simp add: field_simps)
  then have m: "0 < ?m - 1" by (simp add: less_ceiling_iff)
  have "1 \<le> bitlen (?m - 1)" using m by (auto simp: bitlen_alt_def)
  then obtain k where k: "bitlen (?m - 1) = int (Suc k)"
    by (metis Suc_pred' int_nat_eq zero_less_nat_eq less_le_trans zero_less_one order.trans
        zero_le_one)
  from k have nk: "nat (bitlen (?m - 1)) = Suc k" "nat (bitlen (?m - 1) - 1) = k"
    by (metis nat_int, simp)
  from bitlen_bounds [OF m] have lo: "2 ^ k \<le> ?m - 1" and hi: "?m - 1 < 2 ^ Suc k"
    unfolding nk by blast+
  from hi have "?m \<le> 2 ^ Suc k" by simp
  then have "(of_int ?m :: rat) \<le> of_int (2 ^ Suc k)" by (simp only: of_int_le_iff)
  moreover have "?y \<le> of_int ?m" by (rule le_of_int_ceiling)
  moreover have "(of_int (2 ^ Suc k) :: rat) = 2 ^ Suc k" by simp
  ultimately have yle: "?y \<le> 2 ^ Suc k" by linarith
  have 1: "1 / 2 ^ Suc k \<le> q" by (rule recip_le [OF assms(1) _ yle]) simp
  have "(of_int (2 ^ k) :: rat) \<le> of_int (?m - 1)" using lo by (simp only: of_int_le_iff)
  moreover have "of_int (?m - 1) < ?y" by linarith
  moreover have "(of_int (2 ^ k) :: rat) = 2 ^ k" by simp
  ultimately have ylt: "2 ^ k < ?y" by linarith
  have 2: "q < 1 / 2 ^ k" by (rule recip_less [OF assms(1) _ ylt]) simp
  have e: "floor_log2 q = - int (Suc k)" using assms k by (simp add: floor_log2_def)
  have e1: "floor_log2 q + 1 = - int k" using e by simp
  show ?thesis unfolding e1 unfolding e powi_neg_nat using 1 2 by blast
qed

lemma floor_log2_bounds:
  assumes "0 < q"
  shows "2 powi (floor_log2 q) \<le> q \<and> q < 2 powi (floor_log2 q + 1)"
  using assms floor_log2_ge1 [of q] floor_log2_lt1 [of q] by (cases "1 \<le> q") auto


lemma round_half_even_int: "round_half_even (of_int n) = n"
  by (simp add: round_half_even_def)

lemma round_half_even_nonneg: "0 \<le> x \<Longrightarrow> 0 \<le> round_half_even x"
  by (simp add: round_half_even_def Let_def)

lemma round_half_even_le:
  assumes "x \<le> of_int N"
  shows "round_half_even x \<le> N"
proof (cases "\<lfloor>x\<rfloor> < N")
  case True
  then show ?thesis by (simp add: round_half_even_def Let_def)
next
  case False
  moreover from assms have "\<lfloor>x\<rfloor> \<le> N" by (simp add: floor_le_iff)
  ultimately have f: "\<lfloor>x\<rfloor> = N" by simp
  then have "of_int N \<le> x" using of_int_floor_le [of x] by simp
  with assms have "x = of_int N" by simp
  then show ?thesis by (simp add: round_half_even_int)
qed

lemma round_half_even_err: "\<bar>of_int (round_half_even x) - x\<bar> \<le> 1 / 2"
proof -
  have "of_int \<lfloor>x\<rfloor> \<le> x" and "x < of_int \<lfloor>x\<rfloor> + 1" by linarith+
  then show ?thesis by (auto simp: round_half_even_def Let_def)
qed

lemma floor_log2_less:
  assumes "0 < q" and "q < 2 ^ n"
  shows "floor_log2 q < int n"
proof (rule ccontr)
  assume "\<not> floor_log2 q < int n"
  then have "int n \<le> floor_log2 q" by simp
  then have "(2::rat) powi (int n) \<le> 2 powi (floor_log2 q)" by (intro power_int_increasing) simp_all
  also have "\<dots> \<le> q" using floor_log2_bounds [OF assms(1)] by blast
  finally show False using assms(2) by simp
qed

lemma round_double_small:
  assumes "0 < q" and "q < 128"
  shows "\<exists>k\<ge>46. round_double q = of_int (round_half_even (q * 2 ^ k)) / 2 ^ k"
proof -
  from assms have "floor_log2 q < int 7" by (intro floor_log2_less) simp_all
  then have "max (floor_log2 q) (- 1022) - 52 \<le> - 46" by simp
  then have "max (floor_log2 q) (- 1022) - 52 = - int (nat (- (max (floor_log2 q) (- 1022) - 52)))
      \<and> 46 \<le> nat (- (max (floor_log2 q) (- 1022) - 52))"
    by linarith
  then obtain k where k: "max (floor_log2 q) (- 1022) - 52 = - int k" and k46: "46 \<le> k"
    by blast
  from assms(1) have "round_double q = of_int (round_half_even (q / (2 powi (- int k)))) * 2 powi (- int k)"
    by (simp add: round_double_def k [symmetric] Let_def)
  then have "round_double q = of_int (round_half_even (q * 2 ^ k)) / 2 ^ k"
    unfolding powi_neg_nat by simp
  with k46 show ?thesis by blast
qed

lemma round_double_percent:
  assumes "0 \<le> q" and "q \<le> 100"
  shows "0 \<le> round_double q \<and> round_double q \<le> 100 \<and> \<bar>round_double q - q\<bar> \<le> 1 / 2 ^ 47"
proof (cases "q = 0")
  case True
  then show ?thesis by (simp add: round_double_def)
next
  case False
  with assms have pos: "0 < q" and "q < 128" by simp_all
  from round_double_small [OF this] obtain k where k: "46 \<le> k"
    and r: "round_double q = of_int (round_half_even (q * 2 ^ k)) / 2 ^ k" by blast
  let ?x = "q * 2 ^ k"
  have p: "(0::rat) < 2 ^ k" by simp
  have "0 \<le> ?x" using assms(1) by simp
  then have lo: "0 \<le> round_half_even ?x" by (rule round_half_even_nonneg)
  have "?x \<le> 100 * 2 ^ k" using assms(2) by simp
  also have "\<dots> = of_int (100 * 2 ^ k)" by simp
  finally have "round_half_even ?x \<le> 100 * 2 ^ k" by (rule round_half_even_le)
  then have "(of_int (round_half_even ?x) :: rat) \<le> of_int (100 * 2 ^ k)" by (simp only: of_int_le_iff)
  then have hi: "(of_int (round_half_even ?x) :: rat) \<le> 100 * 2 ^ k" by simp
  have 1: "0 \<le> round_double q" unfolding r using lo by simp
  have 2: "round_double q \<le> 100" unfolding r using hi p by (simp add: pos_divide_le_eq)
  have "round_double q - q = (of_int (round_half_even ?x) - ?x) / 2 ^ k"
    unfolding r by (simp add: diff_divide_distrib)
  then have "\<bar>round_double q - q\<bar> = \<bar>of_int (round_half_even ?x) - ?x\<bar> / 2 ^ k"
    by simp
  also have "\<dots> \<le> (1 / 2) / 2 ^ k"
    using round_half_even_err [of ?x] p by (simp only: divide_right_mono less_imp_le)
  also have "\<dots> = 1 / 2 ^ Suc k" by simp
  also have "\<dots> \<le> 1 / 2 ^ 47"
  proof -
    have "(2::rat) ^ 47 \<le> 2 ^ Suc k" using k by (intro power_increasing) simp_all
    then show ?thesis by (simp add: frac_le)
  qed
  finally have 3: "\<bar>round_double q - q\<bar> \<le> 1 / 2 ^ 47" .
  from 1 2 3 show ?thesis by blast
qed

lemma round_double_int:
  assumes "0 < n" and "n < 2 ^ 53"
  shows "round_double (of_int n) = of_int n"
proof -
  let ?q = "of_int n :: rat"
  have q: "0 < ?q" "1 \<le> ?q" using assms(1) by simp_all
  have "?q < of_int (2 ^ 53)" using assms(2) by (simp only: of_int_less_iff)
  then have "?q < 2 ^ 53" by simp
  with q(1) have "floor_log2 ?q < int 53" by (rule floor_log2_less)
  moreover have "0 \<le> floor_log2 ?q" using q(2) by (simp add: floor_log2_def bitlen_alt_def)
  ultimately have "max (floor_log2 ?q) (- 1022) - 52
      = - int (nat (- (max (floor_log2 ?q) (- 1022) - 52)))"
    by linarith
  then obtain k where k: "max (floor_log2 ?q) (- 1022) - 52 = - int k"
    by blast
  from q(1) have "round_double ?q = of_int (round_half_even (?q / (2 powi (- int k)))) * 2 powi (- int k)"
    by (simp add: round_double_def k [symmetric] Let_def)
  also have "?q / (2 powi (- int k)) = of_int (n * 2 ^ k)" unfolding powi_neg_nat by simp
  finally show ?thesis unfolding round_half_even_int powi_neg_nat by simp
qed

section \<open>Properties of the complement table and of \<open>complement_each\<close>\<close>

lemma complement_dict_sym: "complement_dict a = Some b \<Longrightarrow> complement_dict b = Some a"
  by (auto simp: complement_dict_def split: if_splits)

lemma complement_dict_dom: "complement_dict a = None \<longleftrightarrow> a \<notin> set ''ATCG''"
  by (auto simp: complement_dict_def)

lemma complement_each_Cons_iff:
  "complement_each (c # s) = Inr r \<longleftrightarrow>
     (\<exists>v vs. r = v # vs \<and> complement_dict c = Some v \<and> complement_each s = Inr vs)"
  by (auto simp: complement_lookup_def split: option.splits sum.splits)

lemma complement_each_iff:
  "complement_each s = Inr cs \<longleftrightarrow> list_all2 (\<lambda>a b. complement_dict a = Some b) s cs"
proof (induction s arbitrary: cs)
  case Nil
  then show ?case by auto
next
  case (Cons c s)
  show ?case
    unfolding complement_each_Cons_iff list_all2_Cons1 Cons.IH ..
qed

lemma complement_each_valid:
  "set s \<subseteq> set ''ATCG'' \<Longrightarrow> \<exists>cs. complement_each s = Inr cs"
proof (induction s)
  case Nil
  then show ?case by simp
next
  case (Cons c s)
  then obtain cs where "complement_each s = Inr cs" by auto
  moreover from Cons.prems obtain v where "complement_dict c = Some v"
    using complement_dict_dom [of c] by auto
  ultimately show ?case by (simp add: complement_lookup_def)
qed

lemma complement_each_invalid:
  "\<not> set s \<subseteq> set ''ATCG'' \<Longrightarrow>
     \<exists>c. c \<in> set s \<and> c \<notin> set ''ATCG'' \<and> complement_each s = Inl (KeyError c)"
proof (induction s)
  case Nil
  then show ?case by simp
next
  case (Cons c s)
  show ?case
  proof (cases "complement_dict c")
    case None
    then have "c \<notin> set ''ATCG''" using complement_dict_dom [of c] by blast
    with None show ?thesis by (auto simp: complement_lookup_def)
  next
    case (Some v)
    then have "c \<in> set ''ATCG''" using complement_dict_dom [of c] by auto
    with Cons.prems have "\<not> set s \<subseteq> set ''ATCG''" by auto
    from Cons.IH [OF this] obtain d where "d \<in> set s" "d \<notin> set ''ATCG''"
      "complement_each s = Inl (KeyError d)" by blast
    with Some show ?thesis by (auto simp: complement_lookup_def)
  qed
qed

lemma complement_each_rev:
  "complement_each s = Inr cs \<Longrightarrow> complement_each (rev s) = Inr (rev cs)"
  by (simp add: complement_each_iff)

lemma complement_each_back:
  assumes "complement_each s = Inr cs"
  shows "complement_each cs = Inr s"
proof -
  from assms have "list_all2 (\<lambda>a b. complement_dict a = Some b) s cs"
    by (simp only: complement_each_iff)
  then have "list_all2 (\<lambda>a b. complement_dict a = Some b) cs s"
  proof (induction rule: list_all2_induct)
    case Nil
    show ?case by simp
  next
    case (Cons x xs y ys)
    from Cons.hyps(1) have "complement_dict y = Some x" by (rule complement_dict_sym)
    with Cons.IH show ?case by simp
  qed
  then show ?thesis by (simp only: complement_each_iff)
qed

lemma primer_comp_valid:
  assumes "set s \<subseteq> set ''ATCG''"
  shows "\<exists>c. primer_comp s = Inr c"
proof -
  from complement_each_valid [OF assms] obtain cs where "complement_each s = Inr cs" ..
  then show ?thesis by (simp add: primer_comp_def)
qed

section \<open>Construction\<close>


text \<open>A quotient that is a whole number below \<open>2 ^ 53\<close> is returned exactly.\<close>

lemma true_div_exact:
  assumes "b \<noteq> 0" and "a = n * b" and "0 < n" and "n < 2 ^ 53"
  shows "true_div a b = Inr (of_int n)"
proof -
  from assms(1,2) have q: "(of_int a :: rat) / of_int b = of_int n" by simp
  have r: "round_double (of_int n) = of_int n" using assms(3,4) by (rule round_double_int)
  have "(of_int n :: rat) < of_int (2 ^ 53)" using assms(4) by (simp only: of_int_less_iff)
  then have "(of_int n :: rat) < 2 ^ 53" by simp
  also have "(2::rat) ^ 53 \<le> 2 ^ 1024" by (rule power_increasing) simp_all
  finally have "\<bar>of_int n :: rat\<bar> < 2 ^ 1024" using assms(3) by simp
  then have "\<not> 2 ^ 1024 \<le> \<bar>of_int n :: rat\<bar>" by simp
  with assms(1) show ?thesis unfolding true_div_def q r Let_def by simp
qed

text \<open>
  On a non-empty string \<open>gc_content\<close> returns the float nearest to the percentage: the
  quotient is at most 100, so the division does not overflow.
\<close>

lemma gc_content_nonempty:
  assumes "s \<noteq> []"
  shows "gc_content s (int (length s)) =
     Inr (round_double (100 * of_nat (length (filter (\<lambda>nuc. nuc \<in> set ''GC'') s))
                         / of_nat (length s)))"
proof -
  let ?k = "length (filter (\<lambda>nuc. nuc \<in> set ''GC'') s)"
  let ?q = "100 * of_nat ?k / of_nat (length s) :: rat"
  have k: "?k \<le> length s" by (rule length_filter_le)
  have pos: "(0::rat) < of_nat (length s)" using assms by simp
  have q0: "0 \<le> ?q" by simp
  have "(of_nat ?k :: rat) \<le> of_nat (length s)" using k by (simp only: of_nat_le_iff)
  then have "100 * (of_nat ?k :: rat) \<le> 100 * of_nat (length s)" by simp
  then have q100: "?q \<le> 100" using pos by (simp add: pos_divide_le_eq)
  from round_double_percent [OF q0 q100] have "\<bar>round_double ?q\<bar> \<le> 100" by simp
  moreover have "(100::rat) < 2 ^ 1024" by simp
  ultimately have small: "\<not> 2 ^ 1024 \<le> \<bar>round_double ?q\<bar>" by linarith
  have q: "(of_int (100 * int ?k) :: rat) / of_int (int (length s)) = ?q" by simp
  have l: "int (length s) \<noteq> 0" using assms by simp
  show ?thesis unfolding gc_content_def true_div_def q Let_def using l small by simp
qed

lemma Primer_valid:
  assumes "s \<noteq> []" and "set s \<subseteq> set ''ATCG''"
  shows "\<exists>c. primer_comp s = Inr c \<and> Primer s = Inr \<lparr>seq = s, len = int (length s),
      gc = round_double (100 * of_nat (length (filter (\<lambda>nuc. nuc \<in> set ''GC'') s))
                          / of_nat (length s)),
      tm = primer_tm s, min17 = min_large_17 (int (length s)), end_nuc = last s, comp_seq = c\<rparr>"
proof -
  from assms(2) obtain c where "primer_comp s = Inr c"
    using primer_comp_valid by blast
  with assms(1) show ?thesis
    by (simp add: Primer_def gc_content_nonempty getitem_last_def Let_def)
qed

lemma Primer_of_comp:
  assumes "s \<noteq> []" and "primer_comp s = Inr c"
  shows "\<exists>p. Primer s = Inr p \<and> comp_seq p = c"
  using assms by (simp add: Primer_def gc_content_nonempty getitem_last_def Let_def)

lemma Primer_fields:
  assumes "Primer s = Inr p"
  shows "seq p = s" and "len p = int (length s)" and "tm p = primer_tm s"
  using assms by (auto simp: Primer_def Let_def split: sum.splits)

lemma gc_content_example: "gc_content ''GCGCATATGCGCATG'' 15 = Inr 60"
  using true_div_exact [of 15 900 60] by (simp add: gc_content_def)

lemma gc_content_ACGT: "gc_content ''ACGT'' 4 = Inr 50"
  using true_div_exact [of 4 200 50] by (simp add: gc_content_def)

lemma gc_content_GGAT: "gc_content ''GGAT'' 4 = Inr 50"
  using true_div_exact [of 4 200 50] by (simp add: gc_content_def)



text \<open>
  C3, as the specification states it: the primer built from \<open>GCGCATATGCGCATG\<close> is not long
  enough, has GC content \<open>100 * 10 / 15\<close>, melting temperature \<open>4 * 10 + 2 * 5 = 50\<close> and
  terminal base \<open>G\<close>. The sequence holds nine symbols that are G or C (five G, four C) and six
  that are A or T, not ten and five, so the stated GC content and melting temperature are
  not the ones the constructor computes.
\<close>

theorem example_primer_not_as_stated:
  "\<not> isl (Primer ''GCGCATATGCGCATG'') \<and>
   \<not> (min17 (projr (Primer ''GCGCATATGCGCATG'')) = False
      \<and> gc (projr (Primer ''GCGCATATGCGCATG'')) = 100 * 10 / 15
      \<and> tm (projr (Primer ''GCGCATATGCGCATG'')) = 4 * 10 + 2 * 5
      \<and> end_nuc (projr (Primer ''GCGCATATGCGCATG'')) = CHR ''G'')"
  by (simp add: Primer_def gc_content_example primer_tm_def min_large_17_def
      getitem_last_def primer_comp_def complement_lookup_def complement_dict_def)

text \<open>
  C3, amended: the primer built from \<open>GCGCATATGCGCATG\<close> is not long enough, has GC content
  \<open>100 * 9 / 15 = 60\<close>, melting temperature \<open>4 * 9 + 2 * 6 = 48\<close> and terminal base \<open>G\<close>.
\<close>

theorem example_primer:
  "\<exists>p. Primer ''GCGCATATGCGCATG'' = Inr p \<and> min17 p = False \<and> gc p = 100 * 9 / 15 \<and> gc p = 60
     \<and> tm p = 4 * 9 + 2 * 6 \<and> tm p = 48 \<and> end_nuc p = CHR ''G''"
  by (simp add: Primer_def gc_content_example primer_tm_def min_large_17_def
      getitem_last_def primer_comp_def complement_lookup_def complement_dict_def)

text \<open>
  C4: constructing a primer from the empty sequence raises inside \<open>__init__\<close> (the division
  by the length in \<open>gc_content\<close> raises ZeroDivisionError), so no primer object results.
\<close>

theorem empty_sequence_rejected:
  "Primer '''' = Inl ZeroDivisionError \<and> (\<forall>p. Primer '''' \<noteq> Inr p)"
  by (simp add: Primer_def gc_content_def true_div_def)

text \<open>
  C5: for every sequence over A, T, C, G the reverse complement computed by \<open>primer_comp\<close>
  exists, and the reverse complement of that result is the sequence again. For a non-empty
  sequence the same holds through the objects: the primer built from the complement of the
  primer built from \<open>s\<close> has \<open>s\<close> as its complement.
\<close>

theorem primer_comp_involution:
  assumes "set s \<subseteq> set ''ATCG''"
  shows "(\<exists>c. primer_comp s = Inr c \<and> primer_comp c = Inr s)
     \<and> (s \<noteq> [] \<longrightarrow>
          (\<exists>p q. Primer s = Inr p \<and> Primer (comp_seq p) = Inr q \<and> comp_seq q = s))"
proof -
  from assms obtain cs where cs: "complement_each s = Inr cs"
    using complement_each_valid by blast
  have rcs: "complement_each (rev cs) = Inr (rev s)"
    by (rule complement_each_rev [OF complement_each_back [OF cs]])
  from cs have c: "primer_comp s = Inr (rev cs)" by (simp add: primer_comp_def)
  from rcs have s: "primer_comp (rev cs) = Inr s" by (simp add: primer_comp_def)
  have "\<exists>p q. Primer s = Inr p \<and> Primer (comp_seq p) = Inr q \<and> comp_seq q = s"
    if "s \<noteq> []"
  proof -
    from Primer_of_comp [OF that c] obtain p where p: "Primer s = Inr p" "comp_seq p = rev cs"
      by blast
    from cs have "length cs = length s" by (simp add: complement_each_iff list_all2_lengthD)
    with that have "rev cs \<noteq> []" by auto
    from Primer_of_comp [OF this s] obtain q where "Primer (rev cs) = Inr q" "comp_seq q = s"
      by blast
    with p show ?thesis by auto
  qed
  with c s show ?thesis by blast
qed

text \<open>The involution at the sequence \<open>GATTACA\<close>.\<close>

theorem primer_comp_involution_witness:
  "set ''GATTACA'' \<subseteq> set ''ATCG'' \<and> ''GATTACA'' \<noteq> [] \<and>
   (\<exists>c. primer_comp ''GATTACA'' = Inr c \<and> primer_comp c = Inr ''GATTACA'') \<and>
   (\<exists>p q. Primer ''GATTACA'' = Inr p \<and> Primer (comp_seq p) = Inr q \<and> comp_seq q = ''GATTACA'')"
  using primer_comp_involution [of "''GATTACA''"] by simp




text \<open>
  C9: for every non-empty sequence with a symbol outside A, T, C, G the constructor itself
  raises KeyError, for a symbol of the sequence that is not in the complement table.
\<close>

theorem primer_invalid_symbol:
  assumes "s \<noteq> []" and "\<not> set s \<subseteq> set ''ATCG''"
  shows "\<exists>c. c \<in> set s \<and> c \<notin> set ''ATCG'' \<and> Primer s = Inl (KeyError c)"
proof -
  from complement_each_invalid [OF assms(2)] obtain c where
    "c \<in> set s" "c \<notin> set ''ATCG''" "complement_each s = Inl (KeyError c)" by blast
  with assms(1) show ?thesis
    by (auto simp: Primer_def gc_content_nonempty getitem_last_def primer_comp_def Let_def)
qed

text \<open>Construction from \<open>ACNT\<close> raises KeyError.\<close>

theorem primer_invalid_symbol_witness:
  "''ACNT'' \<noteq> [] \<and> \<not> set ''ACNT'' \<subseteq> set ''ATCG'' \<and>
   (\<exists>c. c \<in> set ''ACNT'' \<and> c \<notin> set ''ATCG'' \<and> Primer ''ACNT'' = Inl (KeyError c))"
  using primer_invalid_symbol [of "''ACNT''"] by simp

text \<open>
  C7: the melting temperature computed by \<open>primer_tm\<close>, and stored in every primer that the
  constructor returns, is the integer \<open>4 * (count of G + count of C) + 2 * (count of A + count
  of T)\<close>.
\<close>

theorem melting_temperature_formula:
  "primer_tm s = 4 * (int (count_list s CHR ''G'') + int (count_list s CHR ''C''))
                 + 2 * (int (count_list s CHR ''A'') + int (count_list s CHR ''T''))
   \<and> (Primer s = Inr p \<longrightarrow>
        tm p = 4 * (int (count_list s CHR ''G'') + int (count_list s CHR ''C''))
               + 2 * (int (count_list s CHR ''A'') + int (count_list s CHR ''T'')))"
  by (auto simp: Primer_def Let_def primer_tm_def split: sum.splits)

text \<open>The melting temperature of the primer built from \<open>ACGT\<close> is 12.\<close>

theorem melting_temperature_formula_witness:
  "Primer ''ACGT'' = Inr \<lparr>seq = ''ACGT'', len = 4, gc = 50, tm = 12, min17 = False,
                           end_nuc = CHR ''T'', comp_seq = ''ACGT''\<rparr>
   \<and> tm \<lparr>seq = ''ACGT'', len = 4, gc = 50, tm = 12, min17 = False,
           end_nuc = CHR ''T'', comp_seq = ''ACGT''\<rparr>
       = 4 * (int (count_list ''ACGT'' CHR ''G'') + int (count_list ''ACGT'' CHR ''C''))
         + 2 * (int (count_list ''ACGT'' CHR ''A'') + int (count_list ''ACGT'' CHR ''T''))"
  using melting_temperature_formula [of "''ACGT''"
      "\<lparr>seq = ''ACGT'', len = 4, gc = 50, tm = 12, min17 = False,
        end_nuc = CHR ''T'', comp_seq = ''ACGT''\<rparr>"]
  by (simp add: Primer_def gc_content_ACGT primer_tm_def min_large_17_def
      getitem_last_def primer_comp_def complement_lookup_def complement_dict_def)

section \<open>The hairpin scan\<close>

lemma list_insert_replicate:
  "list_insert k c (replicate k c @ ws) = replicate (Suc k) c @ ws"
  by (simp add: list_insert_def replicate_app_Cons_same)

lemma getitem_replicate:
  "getitem (replicate k c @ w # ws) k = Inr w"
  by (simp add: getitem_def nth_append)

lemma insert_complements_upt:
  assumes "complement_each w = Inr cw"
  shows "insert_complements [k..<k + m] (replicate k cw @ w # ws)
           = Inr (replicate (k + m) cw @ w # ws)"
proof (induction m arbitrary: k)
  case 0
  show ?case by simp
next
  case (Suc m)
  have "[k..<k + Suc m] = k # [Suc k..<Suc k + m]" by (simp add: upt_conv_Cons)
  then have "insert_complements [k..<k + Suc m] (replicate k cw @ w # ws)
      = insert_complements [Suc k..<Suc k + m] (replicate (Suc k) cw @ w # ws)"
    using assms
    by (simp only: insert_complements.simps getitem_replicate list_insert_replicate sum.case)
  also have "\<dots> = Inr (replicate (Suc k + m) cw @ w # ws)" by (rule Suc.IH)
  finally show ?case by simp
qed

lemma hairpin_trials_valid:
  assumes "Primer s = Inr p"
  shows "hairpin_trials p = map (\<lambda>i. take 4 (drop i s)) [0..<length s - 3]"
proof -
  from assms have "seq p = s" and "len p = int (length s)"
    by (auto simp: Primer_def Let_def split: sum.splits)
  moreover have "nat (int (length s) - 3) = length s - 3" by simp
  ultimately show ?thesis by (simp add: hairpin_trials_def slice_def)
qed

lemma complement_each_take:
  "complement_each s = Inr cs \<Longrightarrow> complement_each (take n s) = Inr (take n cs)"
  by (simp add: complement_each_iff)

lemma no_hairpin_second_list:
  assumes p: "Primer s = Inr p" and L: "4 \<le> length s"
  shows "\<exists>c0. complement_each (take 4 s) = Inr c0 \<and>
     no_hairpin p = Inr (hairpin_trials p, replicate (length s - 3) c0 @ hairpin_trials p)"
proof -
  from p obtain c where "primer_comp s = Inr c"
    by (auto simp: Primer_def Let_def split: sum.splits)
  then obtain cs where "complement_each s = Inr cs"
    by (auto simp: primer_comp_def split: sum.splits)
  then have c0: "complement_each (take 4 s) = Inr (take 4 cs)" by (rule complement_each_take)
  let ?n = "length s - 3"
  have n: "?n = Suc (length s - 4)" using L by simp
  have "[0..<?n] = 0 # [Suc 0..<?n]" unfolding n by (simp add: upt_conv_Cons)
  then obtain ws where ws: "hairpin_trials p = take 4 s # ws"
    unfolding hairpin_trials_valid [OF p] by simp
  have len: "length (hairpin_trials p) = ?n"
    unfolding hairpin_trials_valid [OF p] by simp
  from insert_complements_upt [OF c0, of 0 ?n ws]
  have "insert_complements [0..<?n] (hairpin_trials p)
      = Inr (replicate ?n (take 4 cs) @ hairpin_trials p)"
    by (simp add: ws)
  then have "no_hairpin p = Inr (hairpin_trials p, replicate ?n (take 4 cs) @ hairpin_trials p)"
    by (simp add: no_hairpin_def len)
  with c0 show ?thesis by blast
qed

lemma no_hairpin_short:
  assumes p: "Primer s = Inr p" and L: "length s < 4"
  shows "no_hairpin p = Inr ([], [])"
proof -
  from L have "length s - 3 = 0" by simp
  then have "hairpin_trials p = []" unfolding hairpin_trials_valid [OF p] by simp
  then show ?thesis by (simp add: no_hairpin_def)
qed

text \<open>
  C2, evaluated at the primer built from \<open>ACGTA\<close> (length 5). The first list holds the two
  windows \<open>ACGT\<close> and \<open>CGTA\<close>. The second list holds four elements, not two: the complement of
  the first window twice, then the uncomplemented windows. The specification asks for the
  two elements \<open>TGCA\<close> and \<open>GCAT\<close>.
\<close>

theorem no_hairpin_example:
  "\<exists>p. Primer ''ACGTA'' = Inr p \<and>
     no_hairpin p = Inr ([''ACGT'', ''CGTA''], [''TGCA'', ''TGCA'', ''ACGT'', ''CGTA''])"
proof -
  from Primer_valid [of "''ACGTA''"] obtain p where p: "Primer ''ACGTA'' = Inr p"
    by auto
  from Primer_fields(1,2) [OF p] have "seq p = ''ACGTA''" and "len p = 5" by simp_all
  then have "no_hairpin p = Inr ([''ACGT'', ''CGTA''], [''TGCA'', ''TGCA'', ''ACGT'', ''CGTA''])"
    by (simp add: no_hairpin_def hairpin_trials_def slice_def upt_conv_Cons getitem_def
        list_insert_def complement_lookup_def complement_dict_def)
  with p show ?thesis by blast
qed

section \<open>The pairwise checks\<close>

lemma no_primer_dimer_raises:
  "no_primer_dimer primer_1 primer_2 = Inl (AttributeError ''comp'')"
  by (simp add: no_primer_dimer_def str_getattr_comp_def)

text \<open>
  C1, evaluated at the primers built from \<open>ACGTACGT\<close> and \<open>TTGCAAGC\<close>: the last four symbols
  of the first sequence (\<open>ACGT\<close>) and of the second primer's complement (\<open>GCAA\<close>) agree at one
  position, so the specification asks for the result true; \<open>no_primer_dimer\<close> raises
  AttributeError instead.
\<close>

theorem no_primer_dimer_example:
  "\<exists>p1 p2. Primer ''ACGTACGT'' = Inr p1 \<and> Primer ''TTGCAAGC'' = Inr p2
     \<and> no_primer_dimer p1 p2 = Inl (AttributeError ''comp'')"
proof -
  from Primer_valid [of "''ACGTACGT''"] obtain p1 where "Primer ''ACGTACGT'' = Inr p1"
    by auto
  moreover from Primer_valid [of "''TTGCAAGC''"] obtain p2 where "Primer ''TTGCAAGC'' = Inr p2"
    by auto
  ultimately show ?thesis using no_primer_dimer_raises by blast
qed

text \<open>
  The melting temperature that the constructor stores is even, so two constructed primers
  never differ by exactly 5; the check itself reads whatever the attribute \<open>tm\<close> holds.
\<close>

lemma Primer_tm_even:
  assumes "Primer s = Inr p"
  shows "even (tm p)"
proof -
  from assms have "tm p = primer_tm s"
    by (auto simp: Primer_def Let_def split: sum.splits)
  then show ?thesis by (simp add: primer_tm_def)
qed

text \<open>
  C8: \<open>anneling_temperature_check\<close> is true exactly when the melting temperatures differ by
  at most 5; it is true at a difference of exactly 5 and false at a difference of 6.
\<close>

theorem anneling_temperature_check_iff:
  "(anneling_temperature_check p1 p2 \<longleftrightarrow> \<bar>tm p1 - tm p2\<bar> \<le> 5)
   \<and> (\<bar>tm p1 - tm p2\<bar> = 5 \<longrightarrow> anneling_temperature_check p1 p2)
   \<and> (\<bar>tm p1 - tm p2\<bar> = 6 \<longrightarrow> \<not> anneling_temperature_check p1 p2)"
  by (simp add: anneling_temperature_check_def)

text \<open>
  Primer objects whose attribute \<open>tm\<close> holds 55 and 60 pass the check; 55 and 61 do not.
\<close>

theorem anneling_temperature_check_iff_witness:
  "\<bar>tm \<lparr>seq = ''ACGT'', len = 4, gc = 50, tm = 55, min17 = False,
         end_nuc = CHR ''T'', comp_seq = ''ACGT''\<rparr>
      - tm \<lparr>seq = ''ACGT'', len = 4, gc = 50, tm = 60, min17 = False,
             end_nuc = CHR ''T'', comp_seq = ''ACGT''\<rparr>\<bar> = 5
   \<and> anneling_temperature_check
       \<lparr>seq = ''ACGT'', len = 4, gc = 50, tm = 55, min17 = False,
        end_nuc = CHR ''T'', comp_seq = ''ACGT''\<rparr>
       \<lparr>seq = ''ACGT'', len = 4, gc = 50, tm = 60, min17 = False,
        end_nuc = CHR ''T'', comp_seq = ''ACGT''\<rparr>
   \<and> \<bar>tm \<lparr>seq = ''ACGT'', len = 4, gc = 50, tm = 55, min17 = False,
           end_nuc = CHR ''T'', comp_seq = ''ACGT''\<rparr>
        - tm \<lparr>seq = ''ACGT'', len = 4, gc = 50, tm = 61, min17 = False,
               end_nuc = CHR ''T'', comp_seq = ''ACGT''\<rparr>\<bar> = 6
   \<and> \<not> anneling_temperature_check
         \<lparr>seq = ''ACGT'', len = 4, gc = 50, tm = 55, min17 = False,
          end_nuc = CHR ''T'', comp_seq = ''ACGT''\<rparr>
         \<lparr>seq = ''ACGT'', len = 4, gc = 50, tm = 61, min17 = False,
          end_nuc = CHR ''T'', comp_seq = ''ACGT''\<rparr>"
  using
    anneling_temperature_check_iff
      [of "\<lparr>seq = ''ACGT'', len = 4, gc = 50, tm = 55, min17 = False,
            end_nuc = CHR ''T'', comp_seq = ''ACGT''\<rparr>"
          "\<lparr>seq = ''ACGT'', len = 4, gc = 50, tm = 60, min17 = False,
            end_nuc = CHR ''T'', comp_seq = ''ACGT''\<rparr>"]
    anneling_temperature_check_iff
      [of "\<lparr>seq = ''ACGT'', len = 4, gc = 50, tm = 55, min17 = False,
            end_nuc = CHR ''T'', comp_seq = ''ACGT''\<rparr>"
          "\<lparr>seq = ''ACGT'', len = 4, gc = 50, tm = 61, min17 = False,
            end_nuc = CHR ''T'', comp_seq = ''ACGT''\<rparr>"]
  by simp

text \<open>
  C10: \<open>gc_content_test\<close>, \<open>anneling_temperature_check\<close> and \<open>is_end_g_or_c\<close> give the same
  result when their two arguments are exchanged.
\<close>

theorem pairwise_checks_symmetric:
  "gc_content_test p1 p2 = gc_content_test p2 p1
   \<and> anneling_temperature_check p1 p2 = anneling_temperature_check p2 p1
   \<and> is_end_g_or_c p1 p2 = is_end_g_or_c p2 p1"
  by (auto simp: gc_content_test_def anneling_temperature_check_def is_end_g_or_c_def)

end
